theory Spec2Isabelle
  imports Main "HOL-Library.Word" "HOL-Library.Multiset" "HOL-Library.Char_ord"
    "HOL-Library.List_Lexorder"
begin

unbundle bit_operations_syntax

section \<open>The hash-chained anomaly ledger of \<^verbatim>\<open>blockchain_logger.py\<close>\<close>

text \<open>
  The development embeds the class \<^verbatim>\<open>BlockchainLogger\<close>: the table \<^verbatim>\<open>blocks\<close>
  it keeps in SQLite, the cached tail \<^verbatim>\<open>self.chain\<close>, \<^verbatim>\<open>create_block\<close> and
  \<^verbatim>\<open>verify_chain\<close>. The two library calls that decide the digest,
  \<^verbatim>\<open>json.dumps(..., sort_keys=True)\<close> and \<^verbatim>\<open>hashlib.sha256(...).hexdigest()\<close>,
  are modelled by what they compute.
\<close>

subsection \<open>JSON values and \<^verbatim>\<open>json.dumps\<close>\<close>

text \<open>
  A Python value that \<^verbatim>\<open>json.dumps\<close> accepts. A dict is an association list in
  insertion order, with string keys. A float is carried as the text of its \<^verbatim>\<open>repr\<close>:
  floating-point arithmetic is not modelled. Tuples serialise as lists. Characters are
  the 8-bit characters of \<^typ>\<open>string\<close>.
\<close>

datatype json =
    JNull
  | JBool bool
  | JInt int
  | JFloat string
  | JStr string
  | JArr "json list"
  | JObj "(string \<times> json) list"

definition hexdigit :: "nat \<Rightarrow> char" where
  "hexdigit n = ''0123456789abcdef'' ! (n mod 16)"

fun show_nat :: "nat \<Rightarrow> string" where
  "show_nat n = (if n < 10 then [hexdigit n] else show_nat (n div 10) @ [hexdigit (n mod 10)])"

declare show_nat.simps [simp del]

definition show_int :: "int \<Rightarrow> string" where
  "show_int i = (if i < 0 then CHR ''-'' # show_nat (nat (- i)) else show_nat (nat i))"

text \<open>
  \<^verbatim>\<open>py_encode_basestring_ascii\<close>, the string encoder under the default
  \<^verbatim>\<open>ensure_ascii=True\<close>: the quote and the backslash are escaped, the control
  characters with a short form get it, a printable ASCII character stands for itself and
  everything else becomes \<^verbatim>\<open>\uXXXX\<close> with four lower-case hex digits.
\<close>

definition escape_char :: "char \<Rightarrow> string" where
  "escape_char c =
     (let n = (of_char c :: nat) in
      if n = 0x22 then [CHR 0x5C, CHR 0x22]
      else if n = 0x5C then [CHR 0x5C, CHR 0x5C]
      else if n = 0x0A then [CHR 0x5C, CHR ''n'']
      else if n = 0x0D then [CHR 0x5C, CHR ''r'']
      else if n = 0x09 then [CHR 0x5C, CHR ''t'']
      else if n = 0x08 then [CHR 0x5C, CHR ''b'']
      else if n = 0x0C then [CHR 0x5C, CHR ''f'']
      else if 0x20 \<le> n \<and> n \<le> 0x7E then [c]
      else [CHR 0x5C, CHR ''u'', CHR ''0'', CHR ''0'', hexdigit (n div 16), hexdigit (n mod 16)])"

definition py_encode_basestring_ascii :: "string \<Rightarrow> string" where
  "py_encode_basestring_ascii s = [CHR 0x22] @ concat (map escape_char s) @ [CHR 0x22]"

fun join :: "string \<Rightarrow> string list \<Rightarrow> string" where
  "join sep [] = []"
| "join sep [x] = x"
| "join sep (x # y # ys) = x @ sep @ join sep (y # ys)"

text \<open>
  \<^verbatim>\<open>json.dumps(obj, sort_keys=flag)\<close> with the default separators \<^verbatim>\<open>', '\<close> and
  \<^verbatim>\<open>': '\<close>. With \<^verbatim>\<open>sort_keys\<close> the items of every dict, nested ones too, are
  written in the order of \<^verbatim>\<open>sorted(dct.items())\<close>; the keys of a dict are distinct, so
  that is the stable sort on the key. Strings compare by code point.
\<close>

function dumps :: "bool \<Rightarrow> json \<Rightarrow> string" where
  "dumps sort_keys JNull = ''null''"
| "dumps sort_keys (JBool b) = (if b then ''true'' else ''false'')"
| "dumps sort_keys (JInt i) = show_int i"
| "dumps sort_keys (JFloat r) = r"
| "dumps sort_keys (JStr s) = py_encode_basestring_ascii s"
| "dumps sort_keys (JArr xs) = ''['' @ join '', '' (map (dumps sort_keys) xs) @ '']''"
| "dumps sort_keys (JObj kvs) =
     ''{'' @ join '', ''
        (map (\<lambda>kv. py_encode_basestring_ascii (fst kv) @ '': '' @ dumps sort_keys (snd kv))
           (if sort_keys then sort_key fst kvs else kvs)) @ ''}''"
  by pat_completeness auto
termination
proof (relation "measure (\<lambda>(sort_keys, j). size j)")
  show "wf (measure (\<lambda>(sort_keys, j). size j))"
    by simp
next
  fix sort_keys :: bool and xs :: "json list" and x :: json
  assume "x \<in> set xs"
  then have "size x \<le> size_list size xs"
    by (rule size_list_estimation') simp
  then show "((sort_keys, x), (sort_keys, JArr xs)) \<in> measure (\<lambda>(sort_keys, j). size j)"
    by simp
next
  fix sort_keys :: bool and kvs :: "(string \<times> json) list" and x :: "string \<times> json"
  assume "x \<in> set (if sort_keys then sort_key fst kvs else kvs)"
  then have "x \<in> set kvs"
    by (simp split: if_splits)
  then have "size (snd x) \<le> size_list (size_prod (\<lambda>k. 0) size) kvs"
    by (rule size_list_estimation') (cases x, simp)
  then show "((sort_keys, snd x), (sort_keys, JObj kvs)) \<in> measure (\<lambda>(sort_keys, j). size j)"
    by simp
qed

subsection \<open>SHA-256 and \<^verbatim>\<open>hexdigest\<close>\<close>

text \<open>
  \<^verbatim>\<open>hashlib.sha256(s.encode()).hexdigest()\<close> (FIPS 180-4). The output of
  \<^verbatim>\<open>json.dumps\<close> is ASCII, so \<^verbatim>\<open>encode()\<close> maps each character to the byte of
  its code.
\<close>

type_synonym w32 = "32 word"
type_synonym sha_state = "w32 \<times> w32 \<times> w32 \<times> w32 \<times> w32 \<times> w32 \<times> w32 \<times> w32"

definition Ch :: "w32 \<Rightarrow> w32 \<Rightarrow> w32 \<Rightarrow> w32" where
  "Ch x y z = (x AND y) XOR (NOT x AND z)"

definition Maj :: "w32 \<Rightarrow> w32 \<Rightarrow> w32 \<Rightarrow> w32" where
  "Maj x y z = (x AND y) XOR (x AND z) XOR (y AND z)"

definition Sigma0 :: "w32 \<Rightarrow> w32" where
  "Sigma0 x = word_rotr 2 x XOR word_rotr 13 x XOR word_rotr 22 x"

definition Sigma1 :: "w32 \<Rightarrow> w32" where
  "Sigma1 x = word_rotr 6 x XOR word_rotr 11 x XOR word_rotr 25 x"

definition sigma0 :: "w32 \<Rightarrow> w32" where
  "sigma0 x = word_rotr 7 x XOR word_rotr 18 x XOR drop_bit 3 x"

definition sigma1 :: "w32 \<Rightarrow> w32" where
  "sigma1 x = word_rotr 17 x XOR word_rotr 19 x XOR drop_bit 10 x"

definition K256 :: "w32 list" where
  \<comment> \<open>the first 32 bits of the fractional parts of the cube roots of the first 64 primes\<close>
  "K256 =
    [1116352408, 1899447441, 3049323471, 3921009573, 961987163, 1508970993,
     2453635748, 2870763221, 3624381080, 310598401, 607225278, 1426881987,
     1925078388, 2162078206, 2614888103, 3248222580, 3835390401, 4022224774,
     264347078, 604807628, 770255983, 1249150122, 1555081692, 1996064986,
     2554220882, 2821834349, 2952996808, 3210313671, 3336571891, 3584528711,
     113926993, 338241895, 666307205, 773529912, 1294757372, 1396182291,
     1695183700, 1986661051, 2177026350, 2456956037, 2730485921, 2820302411,
     3259730800, 3345764771, 3516065817, 3600352804, 4094571909, 275423344,
     430227734, 506948616, 659060556, 883997877, 958139571, 1322822218,
     1537002063, 1747873779, 1955562222, 2024104815, 2227730452, 2361852424,
     2428436474, 2756734187, 3204031479, 3329325298]"

definition H256 :: sha_state where
  \<comment> \<open>the same of the square roots of the first 8 primes\<close>
  "H256 = (1779033703, 3144134277, 1013904242, 2773480762,
           1359893119, 2600822924, 528734635, 1541459225)"

text \<open>Padding: the byte \<^verbatim>\<open>0x80\<close>, zero bytes up to 56 modulo 64, then the bit length
  of the message as a 64-bit big-endian number.\<close>

definition be_bytes :: "nat \<Rightarrow> nat \<Rightarrow> nat list" where
  "be_bytes k n = map (\<lambda>i. (n div 256 ^ i) mod 256) (rev [0..<k])"

definition sha_pad :: "string \<Rightarrow> nat list" where
  "sha_pad m =
     (let l = length m
      in map of_char m @ [0x80] @ replicate ((119 - l mod 64) mod 64) 0
           @ be_bytes 8 ((8 * l) mod 2 ^ 64))"

function chunks :: "nat \<Rightarrow> 'a list \<Rightarrow> 'a list list" where
  "chunks n xs = (if n = 0 \<or> xs = [] then [] else take n xs # chunks n (drop n xs))"
  by pat_completeness auto
termination
  by (relation "measure (\<lambda>(n, xs). length xs)") auto

declare chunks.simps [simp del]

definition be_word :: "nat list \<Rightarrow> w32" where
  "be_word bs = of_nat (foldl (\<lambda>acc b. acc * 256 + b) 0 bs)"

definition sha_blocks :: "string \<Rightarrow> w32 list list" where
  "sha_blocks m = chunks 16 (map be_word (chunks 4 (sha_pad m)))"

text \<open>The message schedule: the sixteen words of the block, then forty-eight more.\<close>

fun sha_extend :: "nat \<Rightarrow> w32 list \<Rightarrow> w32 list" where
  "sha_extend 0 w = w"
| "sha_extend (Suc n) w =
     (let t = length w
      in sha_extend n (w @ [sigma1 (w ! (t - 2)) + w ! (t - 7) + sigma0 (w ! (t - 15)) + w ! (t - 16)]))"

definition sha_round :: "sha_state \<Rightarrow> w32 \<times> w32 \<Rightarrow> sha_state" where
  "sha_round s kw =
     (case s of (a, b, c, d, e, f, g, h) \<Rightarrow>
        let T1 = h + Sigma1 e + Ch e f g + fst kw + snd kw;
            T2 = Sigma0 a + Maj a b c
        in (T1 + T2, a, b, c, d + T1, e, f, g))"

definition compress :: "sha_state \<Rightarrow> w32 list \<Rightarrow> sha_state" where
  "compress s block =
     (case s of (a, b, c, d, e, f, g, h) \<Rightarrow>
        case foldl sha_round s (zip K256 (sha_extend 48 block)) of
          (a', b', c', d', e', f', g', h') \<Rightarrow>
            (a + a', b + b', c + c', d + d', e + e', f + f', g + g', h + h'))"

definition sha256 :: "string \<Rightarrow> sha_state" where
  "sha256 m = foldl compress H256 (sha_blocks m)"

definition hex32 :: "w32 \<Rightarrow> string" where
  "hex32 w = map (\<lambda>i. hexdigit (unat (drop_bit (4 * i) w) mod 16)) (rev [0..<8])"

definition hexdigest :: "sha_state \<Rightarrow> string" where
  "hexdigest s =
     (case s of (a, b, c, d, e, f, g, h) \<Rightarrow>
        hex32 a @ hex32 b @ hex32 c @ hex32 d @ hex32 e @ hex32 f @ hex32 g @ hex32 h)"

definition sha256_hexdigest :: "string \<Rightarrow> string" where
  "sha256_hexdigest m = hexdigest (sha256 m)"

subsection \<open>The table \<^verbatim>\<open>blocks\<close>\<close>

text \<open>
  The columns that \<^verbatim>\<open>create_block\<close> supplies to \<^verbatim>\<open>INSERT\<close>, and a stored row,
  which has the \<^verbatim>\<open>id\<close> column as well. In a row tuple read back by \<^verbatim>\<open>SELECT *\<close>,
  index 0 is \<^verbatim>\<open>id\<close>, index 1 is \<^verbatim>\<open>previous_hash\<close> and index 2 is
  \<^verbatim>\<open>current_hash\<close>. The column \<^verbatim>\<open>data\<close> holds \<^verbatim>\<open>json.dumps(data)\<close>.
\<close>

record block_cols =
  previous_hash :: string
  current_hash :: string
  timestamp :: string
  data_type :: string
  sensor_id :: "string option"
  fund_id :: "string option"
  anomaly_type :: "string option"
  severity :: string
  data :: string

record block_row = block_cols +
  row_id :: int

text \<open>
  The database file: the rows of \<^verbatim>\<open>blocks\<close> in the order they were inserted, and
  the counter that SQLite keeps for an \<^verbatim>\<open>AUTOINCREMENT\<close> key (the largest id ever
  given out).
\<close>

record database =
  rows :: "block_row list"
  seq :: int

datatype error = IntegrityError | OperationalError

definition init_db :: "database option \<Rightarrow> database" where
  \<comment> \<open>\<^verbatim>\<open>CREATE TABLE IF NOT EXISTS\<close>: a missing file becomes an empty table.\<close>
  "init_db file = (case file of None \<Rightarrow> \<lparr>rows = [], seq = 0\<rparr> | Some d \<Rightarrow> d)"

definition next_rowid :: "database \<Rightarrow> int" where
  "next_rowid d = fold max (map row_id (rows d)) (seq d) + 1"

definition max_rowid :: int where
  "max_rowid = 9223372036854775807"

text \<open>
  \<^verbatim>\<open>INSERT INTO blocks (...) VALUES (...)\<close> followed by \<^verbatim>\<open>commit\<close>. The statement
  raises \<^verbatim>\<open>OperationalError\<close> when the file cannot be reached or written (\<open>up\<close> is
  false) or no 64-bit id is left, and \<^verbatim>\<open>IntegrityError\<close> when the \<^verbatim>\<open>UNIQUE\<close>
  column \<^verbatim>\<open>current_hash\<close> already holds the new value. A failed statement changes
  nothing. Otherwise the row is stored under the next id, which is returned as
  \<^verbatim>\<open>cursor.lastrowid\<close>.
\<close>

definition insert_block :: "bool \<Rightarrow> block_cols \<Rightarrow> database \<Rightarrow> error + (int \<times> database)" where
  "insert_block up c d =
     (if \<not> up then Inl OperationalError
      else if next_rowid d > max_rowid then Inl OperationalError
      else if current_hash c \<in> set (map current_hash (rows d)) then Inl IntegrityError
      else Inr (next_rowid d,
             \<lparr>rows = rows d @
                [\<lparr>previous_hash = previous_hash c, current_hash = current_hash c,
                  timestamp = timestamp c, data_type = data_type c, sensor_id = sensor_id c,
                  fund_id = fund_id c, anomaly_type = anomaly_type c, severity = severity c,
                  data = data c, row_id = next_rowid d\<rparr>],
              seq = next_rowid d\<rparr>))"

definition select_all :: "database \<Rightarrow> block_row list" where
  \<comment> \<open>\<^verbatim>\<open>SELECT * FROM blocks ORDER BY id\<close>\<close>
  "select_all d = sort_key row_id (rows d)"

subsection \<open>The logger\<close>

text \<open>
  A logger object together with the database file it writes: \<open>chain\<close> is
  \<^verbatim>\<open>self.chain\<close>, of which the code reads index 2 only; the model keeps the
  indices 0 to 2 that both a loaded row and the tuple cached by \<^verbatim>\<open>create_block\<close>
  have.
\<close>

record ledger =
  db :: database
  chain :: "(int \<times> string \<times> string) option"

definition load_chain :: "database \<Rightarrow> (int \<times> string \<times> string) option" where
  \<comment> \<open>\<^verbatim>\<open>SELECT * FROM blocks ORDER BY id DESC LIMIT 1\<close>, then \<^verbatim>\<open>fetchone()\<close>\<close>
  "load_chain d =
     (case rev (select_all d) of
        [] \<Rightarrow> None
      | r # _ \<Rightarrow> Some (row_id r, previous_hash r, current_hash r))"

definition BlockchainLogger :: "database option \<Rightarrow> ledger" where
  "BlockchainLogger file = (let d = init_db file in \<lparr>db = d, chain = load_chain d\<rparr>)"

text \<open>
  The arguments of one call of \<^verbatim>\<open>create_block\<close>, with the two things the call takes
  from its environment: \<open>now\<close> is the text of \<^verbatim>\<open>datetime.utcnow().isoformat()\<close> and
  \<open>up\<close> says whether the database file can be reached and written during the call.
\<close>

record call_args =
  now :: string
  up :: bool
  arg_data_type :: string
  arg_sensor_id :: "string option"
  arg_fund_id :: "string option"
  arg_anomaly_type :: "string option"
  arg_severity :: string
  arg_data :: json

record append_result =
  block_id :: int
  res_previous_hash :: string
  res_current_hash :: string
  res_timestamp :: string
  integrity :: string

definition genesis :: string where
  "genesis = replicate 64 CHR ''0''"

definition tail_digest :: "ledger \<Rightarrow> string" where
  \<comment> \<open>\<^verbatim>\<open>self.chain[2] if self.chain else "0" * 64\<close>\<close>
  "tail_digest st = (case chain st of Some (i, p, c) \<Rightarrow> c | None \<Rightarrow> genesis)"

definition opt_str :: "string option \<Rightarrow> json" where
  "opt_str x = (case x of None \<Rightarrow> JNull | Some s \<Rightarrow> JStr s)"

definition block_data :: "string \<Rightarrow> call_args \<Rightarrow> (string \<times> json) list" where
  "block_data prev a =
     [(''previous_hash'', JStr prev),
      (''timestamp'', JStr (now a)),
      (''data_type'', JStr (arg_data_type a)),
      (''sensor_id'', opt_str (arg_sensor_id a)),
      (''fund_id'', opt_str (arg_fund_id a)),
      (''anomaly_type'', opt_str (arg_anomaly_type a)),
      (''severity'', JStr (arg_severity a)),
      (''data'', arg_data a)]"

definition block_hash :: "string \<Rightarrow> call_args \<Rightarrow> string" where
  "block_hash prev a = sha256_hexdigest (dumps True (JObj (block_data prev a)))"

text \<open>
  Lines 47 to 79 of \<^verbatim>\<open>create_block\<close>, from the previous hash read at line 45: the
  digest, the insert, and only after both the assignment to \<^verbatim>\<open>self.chain\<close>. An
  exception of the insert leaves the method before that assignment.
\<close>

definition write_block :: "string \<Rightarrow> call_args \<Rightarrow> ledger \<Rightarrow> (error + append_result) \<times> ledger" where
  "write_block prev a st =
     (let cur = block_hash prev a
      in case insert_block (up a)
             \<lparr>previous_hash = prev, current_hash = cur, timestamp = now a,
              data_type = arg_data_type a, sensor_id = arg_sensor_id a, fund_id = arg_fund_id a,
              anomaly_type = arg_anomaly_type a, severity = arg_severity a,
              data = dumps False (arg_data a)\<rparr> (db st) of
           Inl e \<Rightarrow> (Inl e, st)
         | Inr (lastrowid, d') \<Rightarrow>
             (Inr \<lparr>block_id = lastrowid, res_previous_hash = prev, res_current_hash = cur,
                   res_timestamp = now a, integrity = ''VERIFIED''\<rparr>,
              \<lparr>db = d', chain = Some (lastrowid, prev, cur)\<rparr>))"

definition create_block :: "call_args \<Rightarrow> ledger \<Rightarrow> (error + append_result) \<times> ledger" where
  "create_block a st = write_block (tail_digest st) a st"

subsection \<open>\<^verbatim>\<open>verify_chain\<close>\<close>

datatype verification =
    EMPTY_CHAIN
  | INVALID_CHAIN int string string
  | VALID_CHAIN nat

text \<open>
  The loop \<^verbatim>\<open>for i in range(1, len(blocks))\<close>; \<^verbatim>\<open>INVALID_CHAIN\<close> carries
  \<^verbatim>\<open>block_id\<close>, \<^verbatim>\<open>expected_previous\<close> and \<^verbatim>\<open>actual_previous\<close>.
\<close>

function check_links :: "block_row list \<Rightarrow> nat \<Rightarrow> verification" where
  "check_links blocks i =
     (if i < length blocks then
        (let prev_block = blocks ! (i - 1); curr_block = blocks ! i
         in if previous_hash curr_block \<noteq> current_hash prev_block
            then INVALID_CHAIN (row_id curr_block) (current_hash prev_block) (previous_hash curr_block)
            else check_links blocks (i + 1))
      else VALID_CHAIN (length blocks))"
  by pat_completeness auto
termination
  by (relation "measure (\<lambda>(blocks, i). length blocks - i)") auto

declare check_links.simps [simp del]

definition verify_chain :: "database \<Rightarrow> verification" where
  "verify_chain d =
     (let blocks = select_all d
      in if blocks = [] then EMPTY_CHAIN else check_links blocks 1)"

text \<open>
  The verifier as the specification words it: \<open>expected_previous\<close> starts at the genesis
  sentinel, the first block whose \<open>previous_digest\<close> differs is reported, and after each
  block \<open>expected_previous\<close> becomes its \<open>current_digest\<close>.
\<close>

fun scan_from :: "string \<Rightarrow> nat \<Rightarrow> block_row list \<Rightarrow> verification" where
  "scan_from expected_previous n [] = VALID_CHAIN n"
| "scan_from expected_previous n (b # bs) =
     (if previous_hash b \<noteq> expected_previous
      then INVALID_CHAIN (row_id b) expected_previous (previous_hash b)
      else scan_from (current_hash b) (n + 1) bs)"

definition verify_spec :: "database \<Rightarrow> verification" where
  "verify_spec d =
     (let blocks = select_all d
      in if blocks = [] then EMPTY_CHAIN else scan_from genesis 0 blocks)"

subsection \<open>Runs of one writer\<close>

text \<open>
  What one process does to a ledger, one action after the other: a call of
  \<^verbatim>\<open>create_block\<close>, whose exception (if any) the caller survives, or a restart, which
  builds a new logger object on the same file.
\<close>

datatype action = Append call_args | Restart

fun step :: "action \<Rightarrow> ledger \<Rightarrow> ledger" where
  "step (Append a) st = snd (create_block a st)"
| "step Restart st = BlockchainLogger (Some (db st))"

fun run :: "action list \<Rightarrow> ledger \<Rightarrow> ledger" where
  "run [] st = st"
| "run (x # xs) st = run xs (step x st)"

fun succeeded :: "action \<Rightarrow> ledger \<Rightarrow> bool" where
  "succeeded (Append a) st = (case fst (create_block a st) of Inl e \<Rightarrow> False | Inr r \<Rightarrow> True)"
| "succeeded Restart st = False"

fun appended :: "action list \<Rightarrow> ledger \<Rightarrow> nat" where
  "appended [] st = 0"
| "appended (x # xs) st = (if succeeded x st then 1 else 0) + appended xs (step x st)"

subsection \<open>Two writers on one logger object\<close>

text \<open>
  \<^verbatim>\<open>create_block\<close> takes no lock. One schedule of two threads that call it on the
  same object: both evaluate line 45 (the read of \<^verbatim>\<open>self.chain\<close>) before either
  reaches its insert; then the first runs lines 47 to 79, then the second.
\<close>

definition both_read_then_write :: "call_args \<Rightarrow> call_args \<Rightarrow> ledger \<Rightarrow> ledger" where
  "both_read_then_write a b st =
     (let prev_a = tail_digest st;
          prev_b = tail_digest st;
          st1 = snd (write_block prev_a a st)
      in snd (write_block prev_b b st1))"

subsection \<open>Invariants of a ledger with one writer\<close>

text \<open>A list of blocks in which every block points at the one before it; the first
  one points at \<open>p\<close>.\<close>

fun linked :: "string \<Rightarrow> block_row list \<Rightarrow> bool" where
  "linked p [] = True"
| "linked p (b # bs) = (previous_hash b = p \<and> linked (current_hash b) bs)"

text \<open>
  The state of a ledger that started as an empty file and was written by one logger at a
  time: the ids are \<open>1, 2, \<dots>\<close> in insertion order, the id counter is the number of
  rows, no digest occurs twice, the blocks are linked from the genesis value, and the
  cache is what a reload would give.
\<close>

definition consistent :: "ledger \<Rightarrow> bool" where
  "consistent st \<longleftrightarrow>
     map row_id (rows (db st)) = [1..int (length (rows (db st)))] \<and>
     seq (db st) = int (length (rows (db st))) \<and>
     distinct (map current_hash (rows (db st))) \<and>
     linked genesis (rows (db st)) \<and>
     chain st = load_chain (db st)"

text \<open>The cache holds the digest of the row inserted last, and that row has the
  largest id.\<close>

definition tail_cached :: "ledger \<Rightarrow> bool" where
  "tail_cached st \<longleftrightarrow>
     rows (db st) \<noteq> [] \<and>
     tail_digest st = current_hash (last (rows (db st))) \<and>
     list_all (\<lambda>r. row_id r < row_id (last (rows (db st)))) (butlast (rows (db st)))"

text \<open>The blocks that a run added to the table, in the order of their insertion.\<close>

definition new_blocks :: "action list \<Rightarrow> ledger \<Rightarrow> block_row list" where
  "new_blocks xs st = drop (length (rows (db st))) (rows (db (run xs st)))"

text \<open>The stored block with a given id, if there is one.\<close>

definition block_at :: "database \<Rightarrow> int \<Rightarrow> block_row option" where
  "block_at d i = find (\<lambda>r. row_id r = i) (rows d)"

text \<open>The three columns that \<^verbatim>\<open>verify_chain\<close> reads.\<close>

definition link_cols :: "block_row \<Rightarrow> int \<times> string \<times> string" where
  "link_cols r = (row_id r, previous_hash r, current_hash r)"

subsection \<open>Example data\<close>

definition water_call :: call_args where
  "water_call =
     \<lparr>now = ''2024-01-01T00:00:00'', up = True, arg_data_type = ''WATER_ANOMALY'',
      arg_sensor_id = Some ''n1'', arg_fund_id = None, arg_anomaly_type = None,
      arg_severity = ''HIGH'', arg_data = JNull\<rparr>"

definition fund_call :: call_args where
  "fund_call =
     \<lparr>now = ''2024-01-01T00:00:01'', up = True, arg_data_type = ''FUND_ANOMALY'',
      arg_sensor_id = None, arg_fund_id = Some ''f1'', arg_anomaly_type = None,
      arg_severity = ''HIGH'', arg_data = JNull\<rparr>"

text \<open>The digest of the block that \<open>water_call\<close> appends to an empty ledger, and the
  digest of the block that \<open>fund_call\<close> appends after it (the values that
  \<^verbatim>\<open>hashlib\<close> computes as well).\<close>

definition water_digest :: string where
  "water_digest = ''89981bb61ba44e557dd7620e5c7e0314c55ee6529b914562bf9bed20f9a390fa''"

definition fund_digest :: string where
  "fund_digest = ''1809d91ca6e510540591bfbf1ca51ccb18cb2a7bed90ce646843936748e43e53''"

definition two_calls :: "action list" where
  "two_calls = [Append water_call, Append fund_call]"

text \<open>A stored row with the given id and hashes; the other columns are those that
  \<open>water_call\<close> stores.\<close>

definition stored_row :: "int \<Rightarrow> string \<Rightarrow> string \<Rightarrow> block_row" where
  "stored_row i prev cur =
     \<lparr>previous_hash = prev, current_hash = cur, timestamp = now water_call,
      data_type = arg_data_type water_call, sensor_id = arg_sensor_id water_call,
      fund_id = arg_fund_id water_call, anomaly_type = arg_anomaly_type water_call,
      severity = arg_severity water_call, data = dumps False (arg_data water_call),
      row_id = i\<rparr>"

text \<open>The same for \<open>fund_call\<close>.\<close>

definition fund_row :: "int \<Rightarrow> string \<Rightarrow> string \<Rightarrow> block_row" where
  "fund_row i prev cur =
     \<lparr>previous_hash = prev, current_hash = cur, timestamp = now fund_call,
      data_type = arg_data_type fund_call, sensor_id = arg_sensor_id fund_call,
      fund_id = arg_fund_id fund_call, anomaly_type = arg_anomaly_type fund_call,
      severity = arg_severity fund_call, data = dumps False (arg_data fund_call),
      row_id = i\<rparr>"

text \<open>A file whose second row does not point at the first.\<close>

definition broken_db :: database where
  "broken_db = \<lparr>rows = [stored_row 1 genesis ''aa'', stored_row 2 ''bb'' ''cc''], seq = 2\<rparr>"

text \<open>A file whose only row does not point at the genesis value.\<close>

definition orphan_db :: database where
  "orphan_db = \<lparr>rows = [stored_row 1 ''aa'' ''bb''], seq = 1\<rparr>"

text \<open>A file whose only row had its \<^verbatim>\<open>current_hash\<close> column overwritten.\<close>

definition forged_db :: database where
  "forged_db = \<lparr>rows = [stored_row 1 genesis ''aa''], seq = 1\<rparr>"

text \<open>A logger object that was built on the empty file and has not seen the block that
  another logger object stored since.\<close>

definition stale_logger :: ledger where
  "stale_logger = \<lparr>db = db (snd (create_block water_call (BlockchainLogger None))), chain = None\<rparr>"

section \<open>Auxiliary facts\<close>

lemma length_hex32: "length (hex32 w) = 8"
  by (simp add: hex32_def)

lemma length_hexdigest: "length (hexdigest s) = 64"
  by (simp add: hexdigest_def length_hex32 split: prod.splits)

lemma length_sha256_hexdigest: "length (sha256_hexdigest m) = 64"
  by (simp add: sha256_hexdigest_def length_hexdigest)

lemma length_block_hash: "length (block_hash prev a) = 64"
  by (simp add: block_hash_def length_sha256_hexdigest)

lemma block_hash_neq_short: "length s \<noteq> 64 \<Longrightarrow> block_hash prev a \<noteq> s"
  using length_block_hash by blast

lemma fold_max_ge: "a \<le> fold max xs (a::int)"
proof (induction xs arbitrary: a)
  case Nil
  then show ?case by simp
next
  case (Cons y ys)
  have "a \<le> max y a" by simp
  also have "\<dots> \<le> fold max ys (max y a)" by (rule Cons.IH)
  finally show ?case by simp
qed

lemma fold_max_ge_elem: "x \<in> set xs \<Longrightarrow> x \<le> fold max xs (a::int)"
proof (induction xs arbitrary: a)
  case Nil
  then show ?case by simp
next
  case (Cons y ys)
  show ?case
  proof (cases "x = y")
    case True
    have "y \<le> max y a" by simp
    also have "\<dots> \<le> fold max ys (max y a)" by (rule fold_max_ge)
    finally show ?thesis using True by simp
  next
    case False
    with Cons show ?thesis by simp
  qed
qed

lemma fold_max_absorb: "\<forall>x\<in>set xs. x \<le> a \<Longrightarrow> fold max xs (a::int) = a"
  by (induction xs arbitrary: a) (auto simp: max_absorb2)

lemma next_rowid_gt: "r \<in> set (rows d) \<Longrightarrow> row_id r < next_rowid d"
  using fold_max_ge_elem [of "row_id r" "map row_id (rows d)" "seq d"]
  by (simp add: next_rowid_def)

lemma write_block_cases:
  "write_block prev a st = (out, st') \<Longrightarrow>
     (\<exists>e. out = Inl e \<and> st' = st) \<or>
     (out = Inr \<lparr>block_id = next_rowid (db st), res_previous_hash = prev,
                 res_current_hash = block_hash prev a, res_timestamp = now a,
                 integrity = ''VERIFIED''\<rparr> \<and>
      up a \<and> next_rowid (db st) \<le> max_rowid \<and>
      block_hash prev a \<notin> current_hash ` set (rows (db st)) \<and>
      st' = \<lparr>db = \<lparr>rows = rows (db st) @
                [\<lparr>previous_hash = prev, current_hash = block_hash prev a,
                  timestamp = now a, data_type = arg_data_type a, sensor_id = arg_sensor_id a,
                  fund_id = arg_fund_id a, anomaly_type = arg_anomaly_type a,
                  severity = arg_severity a, data = dumps False (arg_data a),
                  row_id = next_rowid (db st)\<rparr>],
              seq = next_rowid (db st)\<rparr>,
            chain = Some (next_rowid (db st), prev, block_hash prev a)\<rparr>)"
  by (auto simp: write_block_def insert_block_def Let_def split: if_splits)

lemma fresh_logger: "BlockchainLogger None = \<lparr>db = \<lparr>rows = [], seq = 0\<rparr>, chain = None\<rparr>"
  by (simp add: BlockchainLogger_def init_db_def load_chain_def select_all_def)

lemma create_block_ok:
  "up a \<Longrightarrow> next_rowid (db st) \<le> max_rowid \<Longrightarrow>
   block_hash (tail_digest st) a \<notin> current_hash ` set (rows (db st)) \<Longrightarrow>
   create_block a st =
     (Inr \<lparr>block_id = next_rowid (db st), res_previous_hash = tail_digest st,
           res_current_hash = block_hash (tail_digest st) a, res_timestamp = now a,
           integrity = ''VERIFIED''\<rparr>,
      \<lparr>db = \<lparr>rows = rows (db st) @
                [\<lparr>previous_hash = tail_digest st, current_hash = block_hash (tail_digest st) a,
                  timestamp = now a, data_type = arg_data_type a, sensor_id = arg_sensor_id a,
                  fund_id = arg_fund_id a, anomaly_type = arg_anomaly_type a,
                  severity = arg_severity a, data = dumps False (arg_data a),
                  row_id = next_rowid (db st)\<rparr>],
              seq = next_rowid (db st)\<rparr>,
       chain = Some (next_rowid (db st), tail_digest st, block_hash (tail_digest st) a)\<rparr>)"
  by (simp add: create_block_def write_block_def insert_block_def Let_def)

lemma create_block_down: "\<not> up a \<Longrightarrow> create_block a st = (Inl OperationalError, st)"
  by (simp add: create_block_def write_block_def insert_block_def)

lemma create_block_dup:
  "up a \<Longrightarrow> next_rowid (db st) \<le> max_rowid \<Longrightarrow>
   block_hash (tail_digest st) a \<in> current_hash ` set (rows (db st)) \<Longrightarrow>
   create_block a st = (Inl IntegrityError, st)"
  by (simp add: create_block_def write_block_def insert_block_def Let_def)

lemma up_examples [simp]: "up water_call" "up fund_call"
  by (simp_all add: water_call_def fund_call_def)

lemma tail_digest_fresh [simp]: "tail_digest (BlockchainLogger None) = genesis"
  by (simp add: fresh_logger tail_digest_def)

lemma next_rowid_fresh [simp]: "next_rowid (db (BlockchainLogger None)) = 1"
  by (simp add: fresh_logger next_rowid_def)

lemma rows_fresh [simp]: "rows (db (BlockchainLogger None)) = []"
  by (simp add: fresh_logger)

lemma first_append:
  "create_block water_call (BlockchainLogger None) =
     (Inr \<lparr>block_id = 1, res_previous_hash = genesis,
           res_current_hash = block_hash genesis water_call,
           res_timestamp = now water_call, integrity = ''VERIFIED''\<rparr>,
      \<lparr>db = \<lparr>rows = [\<lparr>previous_hash = genesis, current_hash = block_hash genesis water_call,
                timestamp = now water_call, data_type = arg_data_type water_call, sensor_id = arg_sensor_id water_call,
                  fund_id = arg_fund_id water_call, anomaly_type = arg_anomaly_type water_call,
                  severity = arg_severity water_call, data = dumps False (arg_data water_call),
                  row_id = 1\<rparr>], seq = 1\<rparr>,
       chain = Some (1, genesis, block_hash genesis water_call)\<rparr>)"
  by (simp add: create_block_ok max_rowid_def)

lemma insort_key_append_max:
  "f r \<le> f x \<Longrightarrow> insort_key f r (ys @ [x]) = insort_key f r ys @ [x]"
  by (induction ys) auto

lemma sort_key_append_max:
  "\<forall>r\<in>set rs. f r \<le> f x \<Longrightarrow> sort_key f (rs @ [x]) = sort_key f rs @ [x]"
  by (induction rs) (auto simp: insort_key_append_max)

lemma check_links_scan:
  "1 \<le> i \<Longrightarrow> i \<le> length bs \<Longrightarrow>
   check_links bs i = scan_from (current_hash (bs ! (i - 1))) i (drop i bs)"
proof (induction bs i rule: check_links.induct)
  case (1 blocks i)
  show ?case
  proof (cases "i < length blocks")
    case True
    then have d: "drop i blocks = blocks ! i # drop (Suc i) blocks"
      by (simp add: Cons_nth_drop_Suc)
    show ?thesis
    proof (cases "previous_hash (blocks ! i) = current_hash (blocks ! (i - 1))")
      case same: True
      from "1.IH" [OF True refl refl] same True "1.prems"
      have "check_links blocks (i + 1) = scan_from (current_hash (blocks ! i)) (i + 1) (drop (i + 1) blocks)"
        by simp
      with same True d show ?thesis
        by (subst check_links.simps) (simp add: Let_def)
    next
      case False
      with True d show ?thesis
        by (subst check_links.simps) (simp add: Let_def)
    qed
  next
    case False
    with "1.prems" have "i = length blocks" by simp
    then show ?thesis
      by (subst check_links.simps) simp
  qed
qed

lemma verify_chain_scan:
  "verify_chain d =
     (case select_all d of [] \<Rightarrow> EMPTY_CHAIN | b # bs \<Rightarrow> scan_from (current_hash b) 1 bs)"
proof (cases "select_all d")
  case Nil
  then show ?thesis by (simp add: verify_chain_def)
next
  case (Cons b bs)
  then have "check_links (select_all d) 1 = scan_from (current_hash b) 1 bs"
    using check_links_scan [of 1 "select_all d"] by simp
  with Cons show ?thesis by (simp add: verify_chain_def)
qed

lemma scan_from_linked: "linked p bs \<Longrightarrow> scan_from p n bs = VALID_CHAIN (n + length bs)"
  by (induction bs arbitrary: p n) auto

lemma scan_from_cols:
  "map link_cols bs = map link_cols bs' \<Longrightarrow> scan_from p n bs = scan_from p n bs'"
proof (induction bs arbitrary: bs' p n)
  case Nil
  then show ?case by simp
next
  case (Cons b bs)
  then obtain c cs where bs': "bs' = c # cs" by (cases bs') auto
  with Cons.prems have bc: "link_cols b = link_cols c" and rest: "map link_cols bs = map link_cols cs"
    by simp_all
  from bc have eq: "row_id b = row_id c" "previous_hash b = previous_hash c"
    "current_hash b = current_hash c"
    by (simp_all add: link_cols_def)
  have "scan_from q m bs = scan_from q m cs" for q m
    by (rule Cons.IH [OF rest])
  then show ?case
    by (simp add: bs' eq)
qed

lemma insort_key_cols:
  "map link_cols (insort_key row_id r rs) = insort_key fst (link_cols r) (map link_cols rs)"
  by (induction rs) (auto simp: link_cols_def)

lemma sort_key_cols:
  "map link_cols (sort_key row_id rs) = sort_key fst (map link_cols rs)"
  by (induction rs) (simp_all add: insort_key_cols)

lemma length_genesis: "length genesis = 64"
  by (simp add: genesis_def)

lemma genesis_neq_short: "length s \<noteq> 64 \<Longrightarrow> genesis \<noteq> s"
  using length_genesis by blast

lemma row_simps [simp]:
  "row_id (stored_row i p c) = i"
  "previous_hash (stored_row i p c) = p"
  "current_hash (stored_row i p c) = c"
  by (simp_all add: stored_row_def)

lemma verify_spec_scan:
  "verify_spec d =
     (case select_all d of [] \<Rightarrow> EMPTY_CHAIN | b # bs \<Rightarrow> scan_from genesis 0 (b # bs))"
  by (simp add: verify_spec_def split: list.splits)

lemma select_all_broken:
  "select_all broken_db = [stored_row 1 genesis ''aa'', stored_row 2 ''bb'' ''cc'']"
  by (simp add: select_all_def broken_db_def)

lemma broken_logger:
  "BlockchainLogger (Some broken_db) = \<lparr>db = broken_db, chain = Some (2, ''bb'', ''cc'')\<rparr>"
  by (simp add: BlockchainLogger_def init_db_def load_chain_def select_all_broken)

lemma create_block_cases:
  "create_block a st = (Inl IntegrityError, st) \<or>
   create_block a st = (Inl OperationalError, st) \<or>
   (up a \<and> next_rowid (db st) \<le> max_rowid \<and>
    block_hash (tail_digest st) a \<notin> current_hash ` set (rows (db st)))"
  by (auto simp: create_block_def write_block_def insert_block_def Let_def)

lemma linked_append:
  "linked p (bs @ [b]) \<longleftrightarrow>
     linked p bs \<and> previous_hash b = (if bs = [] then p else current_hash (last bs))"
  by (induction bs arbitrary: p) auto

lemma linked_nth:
  "linked p bs \<Longrightarrow> 0 < i \<Longrightarrow> i < length bs \<Longrightarrow>
   previous_hash (bs ! i) = current_hash (bs ! (i - 1))"
proof (induction bs arbitrary: p i)
  case Nil
  then show ?case by simp
next
  case (Cons b bs)
  show ?case
  proof (cases "i = 1")
    case True
    with Cons.prems show ?thesis by (cases bs) auto
  next
    case False
    with Cons.prems have "0 < i - 1" "i - 1 < length bs" "linked (current_hash b) bs"
      by auto
    from Cons.IH [OF this(3) this(1) this(2)] Cons.prems False show ?thesis
      by (cases i) auto
  qed
qed

lemma linked_previous:
  "linked q (x # xs) \<Longrightarrow> map previous_hash xs = map current_hash (butlast (x # xs))"
  by (induction xs arbitrary: q x) auto

lemma linked_distinct_previous:
  assumes "linked p bs" and "distinct (map current_hash bs)"
  shows "distinct (map previous_hash (tl bs))"
proof (cases bs)
  case Nil
  then show ?thesis by simp
next
  case (Cons b cs)
  with assms(1) have "map previous_hash cs = map current_hash (butlast (b # cs))"
    using linked_previous [of p b cs] by simp
  moreover from assms(2) Cons have "distinct (map current_hash (butlast (b # cs)))"
    by (metis distinct_butlast map_butlast)
  ultimately show ?thesis using Cons by simp
qed

lemma select_all_sorted: "sorted (map row_id (rows d)) \<Longrightarrow> select_all d = rows d"
  by (simp add: select_all_def sort_key_id_if_sorted)

lemma load_chain_sorted:
  "sorted (map row_id (rows d)) \<Longrightarrow>
   load_chain d = (if rows d = [] then None
                   else Some (row_id (last (rows d)), previous_hash (last (rows d)),
                              current_hash (last (rows d))))"
  by (cases "rows d" rule: rev_cases) (simp_all add: load_chain_def select_all_sorted)

lemma consistent_sorted: "consistent st \<Longrightarrow> sorted (map row_id (rows (db st)))"
  by (simp add: consistent_def)

lemma consistent_select: "consistent st \<Longrightarrow> select_all (db st) = rows (db st)"
  by (simp add: select_all_sorted consistent_sorted)

lemma consistent_tail:
  "consistent st \<Longrightarrow>
   tail_digest st = (if rows (db st) = [] then genesis else current_hash (last (rows (db st))))"
  using load_chain_sorted [OF consistent_sorted, of st]
  by (simp add: consistent_def tail_digest_def)

lemma consistent_next:
  "consistent st \<Longrightarrow> next_rowid (db st) = int (length (rows (db st))) + 1"
  by (simp add: consistent_def next_rowid_def fold_max_absorb)

lemma consistent_fresh: "consistent (BlockchainLogger None)"
  by (simp add: fresh_logger consistent_def load_chain_def select_all_def)

lemma consistent_restart: "consistent st \<Longrightarrow> BlockchainLogger (Some (db st)) = st"
  by (simp add: BlockchainLogger_def init_db_def consistent_def Let_def)

lemma upto_snoc: "[1..int n + 1] = [1..int n] @ [int n + 1]"
  by (simp add: upto_rec2)

lemma consistent_create: "consistent st \<Longrightarrow> consistent (snd (create_block a st))"
proof -
  assume c: "consistent st"
  let ?n = "length (rows (db st))"
  let ?p = "tail_digest st"
  from create_block_cases [of a st] show ?thesis
  proof (elim disjE)
    assume ok: "up a \<and> next_rowid (db st) \<le> max_rowid \<and>
      block_hash ?p a \<notin> current_hash ` set (rows (db st))"
    then have cb: "create_block a st =
     (Inr \<lparr>block_id = next_rowid (db st), res_previous_hash = ?p,
           res_current_hash = block_hash ?p a, res_timestamp = now a,
           integrity = ''VERIFIED''\<rparr>,
      \<lparr>db = \<lparr>rows = rows (db st) @
                [\<lparr>previous_hash = ?p, current_hash = block_hash ?p a,
                  timestamp = now a, data_type = arg_data_type a, sensor_id = arg_sensor_id a,
                  fund_id = arg_fund_id a, anomaly_type = arg_anomaly_type a,
                  severity = arg_severity a, data = dumps False (arg_data a),
                  row_id = next_rowid (db st)\<rparr>],
              seq = next_rowid (db st)\<rparr>,
       chain = Some (next_rowid (db st), ?p, block_hash ?p a)\<rparr>)"
      by (simp add: create_block_ok)
    have ids: "map row_id (rows (db (snd (create_block a st)))) = [1..int (Suc ?n)]"
      using c by (simp add: cb consistent_next consistent_def upto_rec2)
    then have srt: "sorted (map row_id (rows (db (snd (create_block a st)))))"
      by simp
    show ?thesis
      unfolding consistent_def
    proof (intro conjI)
      show "map row_id (rows (db (snd (create_block a st)))) =
          [1..int (length (rows (db (snd (create_block a st)))))]"
        using ids by (simp add: cb)
      show "seq (db (snd (create_block a st))) = int (length (rows (db (snd (create_block a st)))))"
        using c by (simp add: cb consistent_next)
      show "distinct (map current_hash (rows (db (snd (create_block a st)))))"
        using c ok by (simp add: cb consistent_def)
      show "linked genesis (rows (db (snd (create_block a st))))"
        using c by (simp add: cb linked_append consistent_tail) (simp add: consistent_def)
      show "chain (snd (create_block a st)) = load_chain (db (snd (create_block a st)))"
        unfolding load_chain_sorted [OF srt] by (simp add: cb)
    qed
  qed (simp_all add: c)
qed

lemma consistent_step: "consistent st \<Longrightarrow> consistent (step x st)"
  by (cases x) (simp_all add: consistent_create consistent_restart)

lemma consistent_run: "consistent st \<Longrightarrow> consistent (run xs st)"
  by (induction xs arbitrary: st) (simp_all add: consistent_step)

lemma length_rows_step:
  "length (rows (db (step x st))) = length (rows (db st)) + (if succeeded x st then 1 else 0)"
proof (cases x)
  case (Append a)
  from create_block_cases [of a st] show ?thesis
    by (elim disjE) (simp_all add: Append create_block_ok)
next
  case Restart
  then show ?thesis by (simp add: BlockchainLogger_def init_db_def Let_def)
qed

lemma length_rows_run:
  "length (rows (db (run xs st))) = length (rows (db st)) + appended xs st"
  by (induction xs arbitrary: st) (simp_all add: length_rows_step)

lemma tail_cached_create:
  assumes ok: "up a \<and> next_rowid (db st) \<le> max_rowid \<and>
      block_hash (tail_digest st) a \<notin> current_hash ` set (rows (db st))"
  shows "tail_cached (snd (create_block a st))"
    and "\<exists>r. rows (db (snd (create_block a st))) = rows (db st) @ [r] \<and>
           previous_hash r = tail_digest st"
proof -
  have "list_all (\<lambda>r. row_id r < next_rowid (db st)) (rows (db st))"
    by (simp add: list_all_iff next_rowid_gt)
  with ok show "tail_cached (snd (create_block a st))"
    by (simp add: create_block_ok tail_cached_def tail_digest_def)
  from ok show "\<exists>r. rows (db (snd (create_block a st))) = rows (db st) @ [r] \<and>
           previous_hash r = tail_digest st"
    by (simp add: create_block_ok)
qed

lemma tail_cached_restart:
  assumes "tail_cached st"
  shows "tail_cached (BlockchainLogger (Some (db st)))"
proof -
  from assms obtain bs b where r: "rows (db st) = bs @ [b]"
    by (cases "rows (db st)" rule: rev_cases) (auto simp: tail_cached_def)
  with assms have "\<forall>x\<in>set bs. row_id x \<le> row_id b"
    by (auto simp: tail_cached_def list_all_iff)
  then have "select_all (db st) = sort_key row_id bs @ [b]"
    by (simp add: select_all_def r sort_key_append_max)
  then have "load_chain (db st) = Some (row_id b, previous_hash b, current_hash b)"
    by (simp add: load_chain_def)
  with assms r show ?thesis
    by (simp add: BlockchainLogger_def init_db_def Let_def tail_cached_def tail_digest_def)
qed

lemma run_from_tail_cached:
  "tail_cached st \<Longrightarrow>
   \<exists>new. rows (db (run xs st)) = rows (db st) @ new \<and> tail_cached (run xs st) \<and>
         linked (current_hash (last (rows (db st)))) new"
proof (induction xs arbitrary: st)
  case Nil
  then show ?case by simp
next
  case (Cons x xs)
  show ?case
  proof (cases x)
    case Restart
    from Cons.IH [OF tail_cached_restart [OF Cons.prems]] Restart show ?thesis
      by (simp add: BlockchainLogger_def init_db_def Let_def)
  next
    case (Append a)
    from create_block_cases [of a st] show ?thesis
    proof (elim disjE)
      assume ok: "up a \<and> next_rowid (db st) \<le> max_rowid \<and>
        block_hash (tail_digest st) a \<notin> current_hash ` set (rows (db st))"
      from tail_cached_create [OF ok] obtain r where
        t: "tail_cached (snd (create_block a st))" and
        r: "rows (db (snd (create_block a st))) = rows (db st) @ [r]" and
        p: "previous_hash r = tail_digest st"
        by blast
      from Cons.IH [OF t] obtain new where
        n: "rows (db (run xs (snd (create_block a st)))) = rows (db (snd (create_block a st))) @ new"
        and tc: "tail_cached (run xs (snd (create_block a st)))"
        and l: "linked (current_hash (last (rows (db (snd (create_block a st)))))) new"
        by blast
      from p Cons.prems have "previous_hash r = current_hash (last (rows (db st)))"
        by (simp add: tail_cached_def)
      with n tc l r have "rows (db (run (x # xs) st)) = rows (db st) @ (r # new) \<and>
          tail_cached (run (x # xs) st) \<and>
          linked (current_hash (last (rows (db st)))) (r # new)"
        by (simp add: Append)
      then show ?thesis by blast
    next
      assume "create_block a st = (Inl IntegrityError, st)"
      with Cons.IH [OF Cons.prems] Append show ?thesis by simp
    next
      assume "create_block a st = (Inl OperationalError, st)"
      with Cons.IH [OF Cons.prems] Append show ?thesis by simp
    qed
  qed
qed

lemma run_new_blocks_linked:
  "\<exists>new. rows (db (run xs st)) = rows (db st) @ new \<and>
         (new = [] \<or> linked (previous_hash (hd new)) new)"
proof (induction xs arbitrary: st)
  case Nil
  then show ?case by simp
next
  case (Cons x xs)
  show ?case
  proof (cases x)
    case Restart
    from Cons.IH [of "BlockchainLogger (Some (db st))"] Restart show ?thesis
      by (simp add: BlockchainLogger_def init_db_def Let_def)
  next
    case (Append a)
    from create_block_cases [of a st] show ?thesis
    proof (elim disjE)
      assume ok: "up a \<and> next_rowid (db st) \<le> max_rowid \<and>
        block_hash (tail_digest st) a \<notin> current_hash ` set (rows (db st))"
      from tail_cached_create [OF ok] obtain r where
        t: "tail_cached (snd (create_block a st))" and
        r: "rows (db (snd (create_block a st))) = rows (db st) @ [r]"
        by blast
      from run_from_tail_cached [OF t, of xs] obtain new where
        n: "rows (db (run xs (snd (create_block a st)))) = rows (db (snd (create_block a st))) @ new"
        and l: "linked (current_hash (last (rows (db (snd (create_block a st)))))) new"
        by blast
      from n l r have "rows (db (run (x # xs) st)) = rows (db st) @ (r # new) \<and>
          linked (previous_hash (hd (r # new))) (r # new)"
        by (simp add: Append)
      then show ?thesis by blast
    next
      assume "create_block a st = (Inl IntegrityError, st)"
      with Cons.IH [of st] Append show ?thesis by simp
    next
      assume "create_block a st = (Inl OperationalError, st)"
      with Cons.IH [of st] Append show ?thesis by simp
    qed
  qed
qed

lemma sort_key_perm:
  assumes m: "mset xs = mset ys" and d: "distinct (map f xs)"
  shows "sort_key f xs = sort_key f ys"
proof -
  from m have s: "set xs = set ys"
    by (rule mset_eq_setD)
  from m have "mset (map f xs) = mset (map f ys)"
    by simp
  with d have d': "distinct (map f ys)"
    by (metis mset_eq_imp_distinct_iff)
  from d have inj: "inj_on f (set xs)"
    by (simp add: distinct_map)
  have "map f (sort_key f xs) = map f (sort_key f ys)"
  proof (rule sorted_distinct_set_unique)
    show "distinct (map f (sort_key f xs))" "distinct (map f (sort_key f ys))"
      using d d' by (simp_all add: distinct_map)
    show "set (map f (sort_key f xs)) = set (map f (sort_key f ys))"
      using s by simp
  qed simp_all
  moreover from inj s have "inj_on f (set (sort_key f xs) \<union> set (sort_key f ys))"
    by simp
  ultimately show ?thesis
    by (simp add: inj_on_map_eq_map)
qed

lemma hexdigit_in: "hexdigit n \<in> set ''0123456789abcdef''"
  unfolding hexdigit_def by (rule nth_mem) simp

lemma set_hex32: "set (hex32 w) \<subseteq> set ''0123456789abcdef''"
  unfolding hex32_def using hexdigit_in by auto

lemma set_hexdigest: "set (hexdigest s) \<subseteq> set ''0123456789abcdef''"
proof -
  obtain a b c d e f g h where s: "s = (a, b, c, d, e, f, g, h)"
    by (metis prod_cases7 surj_pair)
  show ?thesis
    by (simp only: s hexdigest_def prod.case set_append le_sup_iff set_hex32 simp_thms)
qed

lemma distinct_block_keys: "distinct (map fst (block_data prev a))"
  by (simp add: block_data_def)

lemma find_app:
  "find P (xs @ ys) = (case find P xs of None \<Rightarrow> find P ys | Some x \<Rightarrow> Some x)"
  by (induction xs) simp_all

lemma find_last_id:
  assumes "map row_id rs = [1..int (length rs)]" and "rs \<noteq> []"
  shows "find (\<lambda>r. row_id r = int (length rs)) rs = Some (last rs)"
proof -
  from assms(2) obtain bs b where r: "rs = bs @ [b]"
    by (cases rs rule: rev_cases) auto
  with assms(1) have "map row_id bs @ [row_id b] = [1..int (length bs)] @ [int (length bs) + 1]"
    by (simp add: upto_rec2)
  then have ids: "map row_id bs = [1..int (length bs)]" and b: "row_id b = int (length bs) + 1"
    by simp_all
  have "row_id x \<noteq> int (length bs) + 1" if "x \<in> set bs" for x
  proof -
    from that have "row_id x \<in> set (map row_id bs)" by simp
    then show ?thesis by (simp add: ids)
  qed
  then have "find (\<lambda>r. row_id r = int (length bs) + 1) bs = None"
    by (simp add: find_None_iff)
  then show ?thesis
    by (simp add: r b find_app add.commute)
qed

lemma race_state:
  "both_read_then_write water_call fund_call (BlockchainLogger None) =
     snd (write_block genesis fund_call (snd (create_block water_call (BlockchainLogger None))))"
  by (simp add: both_read_then_write_def Let_def create_block_def)

lemma race_rows:
  "rows (db (both_read_then_write water_call fund_call (BlockchainLogger None))) =
     (if block_hash genesis fund_call = block_hash genesis water_call
      then [stored_row 1 genesis (block_hash genesis water_call)]
      else [stored_row 1 genesis (block_hash genesis water_call),
            \<lparr>previous_hash = genesis, current_hash = block_hash genesis fund_call,
             timestamp = now fund_call, data_type = arg_data_type fund_call,
             sensor_id = arg_sensor_id fund_call, fund_id = arg_fund_id fund_call,
             anomaly_type = arg_anomaly_type fund_call, severity = arg_severity fund_call,
             data = dumps False (arg_data fund_call), row_id = 2\<rparr>])"
  unfolding race_state first_append
  by (simp add: write_block_def insert_block_def next_rowid_def max_rowid_def Let_def stored_row_def)

section \<open>The digests of two example blocks, evaluated\<close>

text \<open>
  The digest of a concrete block is computed inside the logic: the canonical string, its
  padding into blocks of sixteen words, one compression per block, and the hexadecimal
  rendering. The rules below turn a rotation of a numeral into shifts and unfold the
  message schedule one word at a time.
\<close>

lemma rotr32: "n < 32 \<Longrightarrow> word_rotr n (x::32 word) = drop_bit n x OR push_bit (32 - n) x"
proof (rule bit_word_eqI)
  fix k assume n: "n < 32" and k: "k < LENGTH(32)"
  from k have k': "k < 32" by simp
  have m: "(k + n) mod 32 = (if k + n < 32 then k + n else k + n - 32)"
    using n k' by (simp add: mod_if)
  show "bit (word_rotr n x) k = bit (drop_bit n x OR push_bit (32 - n) x) k"
    using n k' by (auto simp: bit_word_rotr_iff bit_simps m add.commute dest: bit_imp_le_length)
qed

lemma rotr_numeral:
  "n < 32 \<Longrightarrow> word_rotr n (numeral k :: 32 word) =
     drop_bit n (numeral k) OR take_bit 32 (push_bit (32 - n) (numeral k))"
  using rotr32 [of n "numeral k"] by (simp add: take_bit_word_eq_self)

lemma rotr_zero: "word_rotr n (0 :: 32 word) = 0"
  by (rule bit_word_eqI) (simp add: bit_word_rotr_iff)

lemma rotr_one:
  "n < 32 \<Longrightarrow> word_rotr n (1 :: 32 word) = drop_bit n 1 OR take_bit 32 (push_bit (32 - n) 1)"
  using rotr32 [of n 1] by (simp add: take_bit_word_eq_self)

lemma sha_extend_numeral:
  "sha_extend (numeral k) w =
     sha_extend (pred_numeral k)
       (w @ [sigma1 (w ! (length w - 2)) + w ! (length w - 7) +
             sigma0 (w ! (length w - 15)) + w ! (length w - 16)])"
  by (simp add: numeral_eq_Suc Let_def)

lemma sha_extend_Suc:
  "sha_extend (Suc k) w =
     sha_extend k
       (w @ [sigma1 (w ! (length w - 2)) + w ! (length w - 7) +
             sigma0 (w ! (length w - 15)) + w ! (length w - 16)])"
  by (simp add: Let_def)

lemma replicate_numeral_Cons: "replicate (numeral k) x = x # replicate (pred_numeral k) x"
  by (simp add: numeral_eq_Suc)

lemma rev_upt_8: "rev [0..<8] = [7, 6, 5, 4, 3, 2, 1, 0]"
  by (simp add: upt_rec)

lemmas sha_eval = rotr_numeral rotr_zero rotr_one Sigma0_def Sigma1_def sigma0_def sigma1_def Ch_def Maj_def
  sha_round_def H256_def K256_def Let_def sha_extend_numeral sha_extend_Suc compress_def

lemma water_bytes:
  "map of_char (dumps True (JObj (block_data genesis water_call))) =
     ([123, 34, 97, 110, 111, 109, 97, 108, 121, 95, 116, 121, 112, 101, 34, 58,
      32, 110, 117, 108, 108, 44, 32, 34, 100, 97, 116, 97, 34, 58, 32, 110,
      117, 108, 108, 44, 32, 34, 100, 97, 116, 97, 95, 116, 121, 112, 101, 34,
      58, 32, 34, 87, 65, 84, 69, 82, 95, 65, 78, 79, 77, 65, 76, 89,
      34, 44, 32, 34, 102, 117, 110, 100, 95, 105, 100, 34, 58, 32, 110, 117,
      108, 108, 44, 32, 34, 112, 114, 101, 118, 105, 111, 117, 115, 95, 104, 97,
      115, 104, 34, 58, 32, 34, 48, 48, 48, 48, 48, 48, 48, 48, 48, 48,
      48, 48, 48, 48, 48, 48, 48, 48, 48, 48, 48, 48, 48, 48, 48, 48,
      48, 48, 48, 48, 48, 48, 48, 48, 48, 48, 48, 48, 48, 48, 48, 48,
      48, 48, 48, 48, 48, 48, 48, 48, 48, 48, 48, 48, 48, 48, 48, 48,
      48, 48, 48, 48, 48, 48, 34, 44, 32, 34, 115, 101, 110, 115, 111, 114,
      95, 105, 100, 34, 58, 32, 34, 110, 49, 34, 44, 32, 34, 115, 101, 118,
      101, 114, 105, 116, 121, 34, 58, 32, 34, 72, 73, 71, 72, 34, 44, 32,
      34, 116, 105, 109, 101, 115, 116, 97, 109, 112, 34, 58, 32, 34, 50, 48,
      50, 52, 45, 48, 49, 45, 48, 49, 84, 48, 48, 58, 48, 48, 58, 48,
      48, 34, 125] :: nat list)"
  by (simp add: block_data_def water_call_def genesis_def opt_str_def py_encode_basestring_ascii_def
      escape_char_def replicate_numeral_Cons)

lemma water_length: "length (dumps True (JObj (block_data genesis water_call))) = 243"
  using arg_cong [OF water_bytes, of length] by simp

lemma water_blocks:
  "sha_blocks (dumps True (JObj (block_data genesis water_call))) =
    [[2065850734, 1869439340, 2036298873, 1885676090, 544109932, 1814831138,
      1684108385, 574234734, 1970039852, 539124833, 1952538484, 2037409058,
      975184471, 1096041810, 1598115407, 1296125017],
     [573317154, 1718972004, 1600742434, 975203957, 1819028512, 577794661,
      1986621301, 1935632481, 1936204346, 539111472, 808464432, 808464432,
      808464432, 808464432, 808464432, 808464432],
     [808464432, 808464432, 808464432, 808464432, 808464432, 808464432,
      808464432, 808464432, 808464432, 808460844, 539128677, 1853058930,
      1600742434, 975184494, 824323104, 577987958],
     [1701996916, 2032286240, 575162695, 1210199072, 578054509, 1702065249,
      1836065338, 539111984, 842280240, 825045041, 1412444218, 808466992,
      807566720, 0, 0, 1944]]"
  unfolding sha_blocks_def sha_pad_def Let_def water_bytes water_length
  by (simp add: be_bytes_def be_word_def chunks.simps replicate_numeral_Cons rev_upt_8)

lemma water_compress_1:
  "compress H256
     [2065850734, 1869439340, 2036298873, 1885676090, 544109932, 1814831138,
      1684108385, 574234734, 1970039852, 539124833, 1952538484, 2037409058,
      975184471, 1096041810, 1598115407, 1296125017] =
   (844976910, 3680905497, 384783294, 471757700, 2805236233, 970224067, 3546221532, 575557963)"
  by (simp add: sha_eval del: sha_extend.simps(2))

lemma water_compress_2:
  "compress (844976910, 3680905497, 384783294, 471757700, 2805236233, 970224067, 3546221532, 575557963)
     [573317154, 1718972004, 1600742434, 975203957, 1819028512, 577794661,
      1986621301, 1935632481, 1936204346, 539111472, 808464432, 808464432,
      808464432, 808464432, 808464432, 808464432] =
   (737067644, 4238627691, 1172685644, 594942806, 2646473981, 735598021, 2301674466, 2905420447)"
  by (simp add: sha_eval del: sha_extend.simps(2))

lemma water_compress_3:
  "compress (737067644, 4238627691, 1172685644, 594942806, 2646473981, 735598021, 2301674466, 2905420447)
     [808464432, 808464432, 808464432, 808464432, 808464432, 808464432,
      808464432, 808464432, 808464432, 808460844, 539128677, 1853058930,
      1600742434, 975184494, 824323104, 577987958] =
   (1455460410, 3546126013, 4069003722, 3851460878, 2254825655, 1400796173, 1527427148, 351796248)"
  by (simp add: sha_eval del: sha_extend.simps(2))

lemma water_compress_4:
  "compress (1455460410, 3546126013, 4069003722, 3851460878, 2254825655, 1400796173, 1527427148, 351796248)
     [1701996916, 2032286240, 575162695, 1210199072, 578054509, 1702065249,
      1836065338, 539111984, 842280240, 825045041, 1412444218, 808466992,
      807566720, 0, 0, 1944] =
   (2308447158, 463752789, 2111267342, 1551762196, 3311330898, 2609988962, 3214667040, 4188246266)"
  by (simp add: sha_eval del: sha_extend.simps(2))

lemma water_sha256:
  "sha256 (dumps True (JObj (block_data genesis water_call))) =
   (2308447158, 463752789, 2111267342, 1551762196, 3311330898, 2609988962, 3214667040, 4188246266)"
  unfolding sha256_def water_blocks by (simp only: foldl.simps water_compress_1 water_compress_2 water_compress_3 water_compress_4)

lemma water_hexdigest:
  "hexdigest (2308447158, 463752789, 2111267342, 1551762196, 3311330898, 2609988962, 3214667040, 4188246266) =
   ''89981bb61ba44e557dd7620e5c7e0314c55ee6529b914562bf9bed20f9a390fa''"
  by (simp add: hexdigest_def hex32_def hexdigit_def rev_upt_8)

lemma digest_water: "block_hash genesis water_call = water_digest"
  unfolding block_hash_def sha256_hexdigest_def water_sha256 water_digest_def
  by (rule water_hexdigest)

lemma fund_bytes:
  "map of_char (dumps True (JObj (block_data water_digest fund_call))) =
     ([123, 34, 97, 110, 111, 109, 97, 108, 121, 95, 116, 121, 112, 101, 34, 58,
      32, 110, 117, 108, 108, 44, 32, 34, 100, 97, 116, 97, 34, 58, 32, 110,
      117, 108, 108, 44, 32, 34, 100, 97, 116, 97, 95, 116, 121, 112, 101, 34,
      58, 32, 34, 70, 85, 78, 68, 95, 65, 78, 79, 77, 65, 76, 89, 34,
      44, 32, 34, 102, 117, 110, 100, 95, 105, 100, 34, 58, 32, 34, 102, 49,
      34, 44, 32, 34, 112, 114, 101, 118, 105, 111, 117, 115, 95, 104, 97, 115,
      104, 34, 58, 32, 34, 56, 57, 57, 56, 49, 98, 98, 54, 49, 98, 97,
      52, 52, 101, 53, 53, 55, 100, 100, 55, 54, 50, 48, 101, 53, 99, 55,
      101, 48, 51, 49, 52, 99, 53, 53, 101, 101, 54, 53, 50, 57, 98, 57,
      49, 52, 53, 54, 50, 98, 102, 57, 98, 101, 100, 50, 48, 102, 57, 97,
      51, 57, 48, 102, 97, 34, 44, 32, 34, 115, 101, 110, 115, 111, 114, 95,
      105, 100, 34, 58, 32, 110, 117, 108, 108, 44, 32, 34, 115, 101, 118, 101,
      114, 105, 116, 121, 34, 58, 32, 34, 72, 73, 71, 72, 34, 44, 32, 34,
      116, 105, 109, 101, 115, 116, 97, 109, 112, 34, 58, 32, 34, 50, 48, 50,
      52, 45, 48, 49, 45, 48, 49, 84, 48, 48, 58, 48, 48, 58, 48, 49,
      34, 125] :: nat list)"
  by (simp add: block_data_def fund_call_def genesis_def opt_str_def py_encode_basestring_ascii_def
      escape_char_def replicate_numeral_Cons water_digest_def)

lemma fund_length: "length (dumps True (JObj (block_data water_digest fund_call))) = 242"
  using arg_cong [OF fund_bytes, of length] by simp

lemma fund_blocks:
  "sha_blocks (dumps True (JObj (block_data water_digest fund_call))) =
    [[2065850734, 1869439340, 2036298873, 1885676090, 544109932, 1814831138,
      1684108385, 574234734, 1970039852, 539124833, 1952538484, 2037409058,
      975184454, 1431192671, 1095651149, 1095522594],
     [740303462, 1970168927, 1768170042, 539125297, 573317154, 1886545270,
      1768912243, 1600676211, 1747073568, 574110009, 942760546, 909206113,
      875849013, 892822628, 926298672, 1697997623],
     [1697657649, 878916917, 1701131829, 842621497, 825505078, 845309497,
      1650811954, 812005729, 859385958, 1629629472, 577987950, 1936683615,
      1768170042, 544109932, 1814831138, 1936029285],
     [1919513721, 574234658, 1212761928, 573317154, 1953066341, 1937006957,
      1881291296, 573714482, 875376689, 758133076, 808466992, 809119793,
      578650112, 0, 0, 1936]]"
  unfolding sha_blocks_def sha_pad_def Let_def fund_bytes fund_length
  by (simp add: be_bytes_def be_word_def chunks.simps replicate_numeral_Cons rev_upt_8)

lemma fund_compress_1:
  "compress H256
     [2065850734, 1869439340, 2036298873, 1885676090, 544109932, 1814831138,
      1684108385, 574234734, 1970039852, 539124833, 1952538484, 2037409058,
      975184454, 1431192671, 1095651149, 1095522594] =
   (604880748, 2353135127, 1709371950, 844645329, 1311591841, 1161739541, 1620793366, 1171463365)"
  by (simp add: sha_eval del: sha_extend.simps(2))

lemma fund_compress_2:
  "compress (604880748, 2353135127, 1709371950, 844645329, 1311591841, 1161739541, 1620793366, 1171463365)
     [740303462, 1970168927, 1768170042, 539125297, 573317154, 1886545270,
      1768912243, 1600676211, 1747073568, 574110009, 942760546, 909206113,
      875849013, 892822628, 926298672, 1697997623] =
   (1544239179, 187273657, 3963753748, 2704773412, 3236446922, 2560554370, 889961949, 3834595719)"
  by (simp add: sha_eval del: sha_extend.simps(2))

lemma fund_compress_3:
  "compress (1544239179, 187273657, 3963753748, 2704773412, 3236446922, 2560554370, 889961949, 3834595719)
     [1697657649, 878916917, 1701131829, 842621497, 825505078, 845309497,
      1650811954, 812005729, 859385958, 1629629472, 577987950, 1936683615,
      1768170042, 544109932, 1814831138, 1936029285] =
   (4001242734, 3931266466, 536835081, 3183472565, 2761982830, 1640483283, 1218344674, 2357109706)"
  by (simp add: sha_eval del: sha_extend.simps(2))

lemma fund_compress_4:
  "compress (4001242734, 3931266466, 536835081, 3183472565, 2761982830, 1640483283, 1218344674, 2357109706)
     [1919513721, 574234658, 1212761928, 573317154, 1953066341, 1937006957,
      1881291296, 573714482, 875376689, 758133076, 808466992, 809119793,
      578650112, 0, 0, 1936] =
   (403298588, 2800029780, 93437887, 480582859, 415967867, 3985690212, 1749259111, 1222917715)"
  by (simp add: sha_eval del: sha_extend.simps(2))

lemma fund_sha256:
  "sha256 (dumps True (JObj (block_data water_digest fund_call))) =
   (403298588, 2800029780, 93437887, 480582859, 415967867, 3985690212, 1749259111, 1222917715)"
  unfolding sha256_def fund_blocks by (simp only: foldl.simps fund_compress_1 fund_compress_2 fund_compress_3 fund_compress_4)

lemma fund_hexdigest:
  "hexdigest (403298588, 2800029780, 93437887, 480582859, 415967867, 3985690212, 1749259111, 1222917715) =
   ''1809d91ca6e510540591bfbf1ca51ccb18cb2a7bed90ce646843936748e43e53''"
  by (simp add: hexdigest_def hex32_def hexdigit_def rev_upt_8)

lemma digest_fund: "block_hash water_digest fund_call = fund_digest"
  unfolding block_hash_def sha256_hexdigest_def fund_sha256 fund_digest_def
  by (rule fund_hexdigest)

section \<open>The example ledger\<close>

lemma water_digest_neq_genesis: "water_digest \<noteq> genesis"
  by (simp add: water_digest_def genesis_def replicate_numeral_Cons)

lemma fund_digest_neq_water: "fund_digest \<noteq> water_digest"
  by (simp add: water_digest_def fund_digest_def)

lemma after_water:
  "snd (create_block water_call (BlockchainLogger None)) =
     \<lparr>db = \<lparr>rows = [stored_row 1 genesis water_digest], seq = 1\<rparr>,
      chain = Some (1, genesis, water_digest)\<rparr>"
  by (simp add: first_append digest_water stored_row_def)

lemma second_append:
  "create_block fund_call (snd (create_block water_call (BlockchainLogger None))) =
     (Inr \<lparr>block_id = 2, res_previous_hash = water_digest, res_current_hash = fund_digest,
           res_timestamp = now fund_call, integrity = ''VERIFIED''\<rparr>,
      \<lparr>db = \<lparr>rows = [stored_row 1 genesis water_digest, fund_row 2 water_digest fund_digest],
              seq = 2\<rparr>,
       chain = Some (2, water_digest, fund_digest)\<rparr>)"
proof -
  let ?st = "\<lparr>db = \<lparr>rows = [stored_row 1 genesis water_digest], seq = 1\<rparr>,
      chain = Some (1, genesis, water_digest)\<rparr>"
  have t: "tail_digest ?st = water_digest"
    by (simp add: tail_digest_def)
  have n: "next_rowid \<lparr>rows = [stored_row 1 genesis water_digest], seq = 1\<rparr> = 2"
    by (simp add: next_rowid_def)
  have "create_block fund_call ?st =
     (Inr \<lparr>block_id = 2, res_previous_hash = water_digest, res_current_hash = fund_digest,
           res_timestamp = now fund_call, integrity = ''VERIFIED''\<rparr>,
      \<lparr>db = \<lparr>rows = [stored_row 1 genesis water_digest, fund_row 2 water_digest fund_digest],
              seq = 2\<rparr>,
       chain = Some (2, water_digest, fund_digest)\<rparr>)"
    using create_block_ok [of fund_call ?st] fund_digest_neq_water
    by (simp add: t n digest_fund max_rowid_def fund_row_def)
  then show ?thesis
    by (simp only: after_water)
qed

lemma run_two_calls:
  "run two_calls (BlockchainLogger None) =
     \<lparr>db = \<lparr>rows = [stored_row 1 genesis water_digest, fund_row 2 water_digest fund_digest],
              seq = 2\<rparr>,
      chain = Some (2, water_digest, fund_digest)\<rparr>"
  by (simp only: two_calls_def run.simps step.simps second_append snd_conv)

lemma appended_two_calls: "appended two_calls (BlockchainLogger None) = 2"
  by (simp only: two_calls_def appended.simps step.simps succeeded.simps second_append
      fst_conv sum.case if_True) (simp add: first_append)

lemma row_simps2 [simp]:
  "row_id (fund_row i p c) = i"
  "previous_hash (fund_row i p c) = p"
  "current_hash (fund_row i p c) = c"
  by (simp_all add: fund_row_def)

section \<open>The claims\<close>

text \<open>
  Claim C7. For every call of \<^verbatim>\<open>create_block\<close>: when it returns a result, the cached
  tail \<^verbatim>\<open>self.chain\<close> has become the id, previous hash and current hash of the block
  just stored, which is the last row of the table; when it raises, whatever the error,
  the cached tail and the table are as they were before the call.
\<close>

theorem cached_tail_follows_append:
  "create_block a st = (out, st') \<Longrightarrow>
     (case out of
        Inr res \<Rightarrow>
          chain st' = Some (block_id res, res_previous_hash res, res_current_hash res) \<and>
          rows (db st') = rows (db st) @ [last (rows (db st'))] \<and>
          row_id (last (rows (db st'))) = block_id res \<and>
          current_hash (last (rows (db st'))) = res_current_hash res
      | Inl e \<Rightarrow> chain st' = chain st \<and> db st' = db st)"
  unfolding create_block_def by (drule write_block_cases) auto

text \<open>
  At the first append into a fresh file the cache becomes the new block; with the file
  out of reach the call raises and the logger is unchanged.
\<close>

theorem cached_tail_follows_append_witness:
  "fst (create_block water_call (BlockchainLogger None)) =
     Inr \<lparr>block_id = 1, res_previous_hash = genesis,
           res_current_hash = block_hash genesis water_call,
           res_timestamp = now water_call, integrity = ''VERIFIED''\<rparr> \<and>
   chain (snd (create_block water_call (BlockchainLogger None)))
     = Some (1, genesis, block_hash genesis water_call) \<and>
   create_block (water_call\<lparr>up := False\<rparr>) (BlockchainLogger None)
     = (Inl OperationalError, BlockchainLogger None)"
proof -
  have 1: "create_block (water_call\<lparr>up := False\<rparr>) (BlockchainLogger None)
     = (Inl OperationalError, BlockchainLogger None)"
    by (simp add: create_block_down)
  from cached_tail_follows_append [OF first_append] cached_tail_follows_append [OF 1]
  show ?thesis by (simp add: first_append 1)
qed

text \<open>
  Claim C2, as stated, fails. The file \<open>orphan_db\<close> holds one block whose
  \<^verbatim>\<open>previous_hash\<close> is not the genesis value. The scan that the claim describes starts
  with \<open>expected_previous\<close> at the genesis value and reports this block; \<^verbatim>\<open>verify_chain\<close>
  starts its loop at index 1, never looks at the first block's \<^verbatim>\<open>previous_hash\<close> and
  answers \<^verbatim>\<open>VALID_CHAIN\<close>.
\<close>

theorem verify_chain_skips_first_block_counterexample:
  "previous_hash (hd (select_all orphan_db)) \<noteq> genesis \<and>
   verify_chain orphan_db = VALID_CHAIN 1 \<and>
   verify_spec orphan_db = INVALID_CHAIN 1 genesis ''aa''"
  using genesis_neq_short [of "''aa''"]
  by (auto simp add: verify_chain_scan verify_spec_scan select_all_def orphan_db_def)

text \<open>
  Claim C2, amended. \<^verbatim>\<open>verify_chain\<close> reads the rows in ascending id order and
  answers \<^verbatim>\<open>EMPTY_CHAIN\<close> for an empty table; otherwise it runs the scan of the
  specification from the second block on, with \<open>expected_previous\<close> starting at the
  \<^verbatim>\<open>current_hash\<close> of the first block and the count at 1: it reports the first later
  block whose \<^verbatim>\<open>previous_hash\<close> differs, with its id, the expected and the actual value,
  or \<^verbatim>\<open>VALID_CHAIN\<close> with the number of rows. The \<^verbatim>\<open>previous_hash\<close> of the first block
  is not compared with anything. On every table that is empty or whose first block
  carries the genesis value, this is the answer of the specified verifier.
\<close>

theorem verify_chain_scans_from_second_block:
  "verify_chain d =
     (case select_all d of [] \<Rightarrow> EMPTY_CHAIN | b # bs \<Rightarrow> scan_from (current_hash b) 1 bs) \<and>
   (select_all d = [] \<or> previous_hash (hd (select_all d)) = genesis
      \<longrightarrow> verify_chain d = verify_spec d)"
  by (auto simp add: verify_chain_scan verify_spec_scan split: list.splits)

text \<open>
  On \<open>broken_db\<close>, whose first block carries the genesis value, both verifiers report
  block 2.
\<close>

theorem verify_chain_scans_from_second_block_witness:
  "previous_hash (hd (select_all broken_db)) = genesis \<and>
   verify_chain broken_db = INVALID_CHAIN 2 ''aa'' ''bb'' \<and>
   verify_spec broken_db = INVALID_CHAIN 2 ''aa'' ''bb''"
proof -
  have s: "select_all broken_db = [stored_row 1 genesis ''aa'', stored_row 2 ''bb'' ''cc'']"
    by (simp add: select_all_def broken_db_def)
  have "verify_spec broken_db = INVALID_CHAIN 2 ''aa'' ''bb''"
    by (simp add: verify_spec_scan s)
  with verify_chain_scans_from_second_block [of broken_db] show ?thesis
    by (simp add: s)
qed

text \<open>
  Claim C4, as stated, fails: the code has no deep-verify mode. In \<open>forged_db\<close> the stored
  \<^verbatim>\<open>current_hash\<close> of block 1 is not the digest of the block's stored fields (no digest
  has two characters), and \<^verbatim>\<open>verify_chain\<close>, the only verifier there is, answers
  \<^verbatim>\<open>VALID_CHAIN\<close>.
\<close>

theorem verify_chain_no_deep_mode_counterexample:
  "current_hash (hd (rows forged_db))
     \<noteq> block_hash (previous_hash (hd (rows forged_db))) water_call \<and>
   verify_chain forged_db = VALID_CHAIN 1"
  using block_hash_neq_short [of "''aa''" genesis water_call]
  by (auto simp add: verify_chain_scan select_all_def forged_db_def)

text \<open>
  Claim C4, amended. \<^verbatim>\<open>verify_chain\<close> recomputes no digest: its answer is determined by
  the columns \<^verbatim>\<open>id\<close>, \<^verbatim>\<open>previous_hash\<close> and \<^verbatim>\<open>current_hash\<close> of the stored rows. Two
  tables that agree on these columns get the same answer, so an edit of any other stored
  field is never reported.
\<close>

theorem verify_chain_reads_link_columns_only:
  "map link_cols (rows d) = map link_cols (rows d') \<Longrightarrow> verify_chain d = verify_chain d'"
proof -
  assume "map link_cols (rows d) = map link_cols (rows d')"
  then have eq: "map link_cols (select_all d) = map link_cols (select_all d')"
    by (simp add: select_all_def sort_key_cols)
  show ?thesis
  proof (cases "select_all d")
    case Nil
    with eq have "select_all d' = []" by simp
    with Nil show ?thesis by (simp add: verify_chain_scan)
  next
    case (Cons b bs)
    with eq obtain c cs where c: "select_all d' = c # cs" by (cases "select_all d'") auto
    with Cons eq have bc: "link_cols b = link_cols c" and rest: "map link_cols bs = map link_cols cs"
      by simp_all
    from bc have "current_hash b = current_hash c"
      by (simp add: link_cols_def)
    moreover have "scan_from (current_hash c) 1 bs = scan_from (current_hash c) 1 cs"
      by (rule scan_from_cols [OF rest])
    ultimately show ?thesis
      using Cons c by (simp add: verify_chain_scan)
  qed
qed

text \<open>
  Overwriting the \<^verbatim>\<open>severity\<close> column of the stored block leaves the answer as it was.
\<close>

theorem verify_chain_reads_link_columns_only_witness:
  "severity (hd (rows forged_db)) \<noteq> severity (hd (rows (forged_db\<lparr>rows := map (\<lambda>r. r\<lparr>severity := ''LOW''\<rparr>) (rows forged_db)\<rparr>))) \<and>
   verify_chain (forged_db\<lparr>rows := map (\<lambda>r. r\<lparr>severity := ''LOW''\<rparr>) (rows forged_db)\<rparr>)
     = verify_chain forged_db"
proof -
  have "map link_cols (rows (forged_db\<lparr>rows := map (\<lambda>r. r\<lparr>severity := ''LOW''\<rparr>) (rows forged_db)\<rparr>))
      = map link_cols (rows forged_db)"
    by (simp add: link_cols_def forged_db_def)
  from verify_chain_reads_link_columns_only [OF this] show ?thesis
    by (simp add: forged_db_def stored_row_def water_call_def)
qed

text \<open>
  Claim C5. When the file can be written and an id is left, a call of \<^verbatim>\<open>create_block\<close>
  whose digest is already in the column \<^verbatim>\<open>current_hash\<close> raises \<^verbatim>\<open>IntegrityError\<close>
  (the \<^verbatim>\<open>UNIQUE\<close> constraint) to its caller, and neither the table nor the cache
  changes: the duplicate block is not recorded.
\<close>

theorem duplicate_digest_raises:
  "up a \<Longrightarrow> next_rowid (db st) \<le> max_rowid \<Longrightarrow>
   block_hash (tail_digest st) a \<in> set (map current_hash (rows (db st))) \<Longrightarrow>
   create_block a st = (Inl IntegrityError, st)"
  by (simp add: create_block_def write_block_def insert_block_def Let_def)

text \<open>
  A logger object with a stale cache repeats the call that another object on the same
  file has already stored: same previous hash, same timestamp, same fields, hence the
  same digest.
\<close>

theorem duplicate_digest_raises_witness:
  "rows (db stale_logger) = [stored_row 1 genesis (block_hash genesis water_call)] \<and>
   create_block water_call stale_logger = (Inl IntegrityError, stale_logger)"
proof -
  have r: "rows (db stale_logger) = [stored_row 1 genesis (block_hash genesis water_call)]"
    by (simp add: stale_logger_def first_append stored_row_def)
  have s: "seq (db stale_logger) = 1"
    by (simp add: stale_logger_def first_append)
  have t: "tail_digest stale_logger = genesis"
    by (simp add: stale_logger_def tail_digest_def)
  have "create_block water_call stale_logger = (Inl IntegrityError, stale_logger)"
    by (rule duplicate_digest_raises) (simp_all add: r s t next_rowid_def max_rowid_def)
  with r show ?thesis by simp
qed

text \<open>
  Claim C10. Whatever the state of the ledger, a call of \<^verbatim>\<open>create_block\<close> that
  returns a result returns \<^verbatim>\<open>"VERIFIED"\<close> in the field \<^verbatim>\<open>integrity\<close>.
\<close>

theorem integrity_field_is_constant:
  "create_block a st = (Inr res, st') \<Longrightarrow> integrity res = ''VERIFIED''"
  unfolding create_block_def by (drule write_block_cases) auto

text \<open>
  On a file whose chain \<^verbatim>\<open>verify_chain\<close> rejects, before the call and after it, the call
  still answers \<^verbatim>\<open>"VERIFIED"\<close>.
\<close>

theorem integrity_field_is_constant_witness:
  "verify_chain (db (BlockchainLogger (Some broken_db))) = INVALID_CHAIN 2 ''aa'' ''bb'' \<and>
   map_sum id integrity (fst (create_block water_call (BlockchainLogger (Some broken_db))))
     = Inr ''VERIFIED'' \<and>
   verify_chain (db (snd (create_block water_call (BlockchainLogger (Some broken_db)))))
     = INVALID_CHAIN 2 ''aa'' ''bb''"
proof -
  let ?st = "BlockchainLogger (Some broken_db)"
  have n: "next_rowid (db ?st) = 3"
    unfolding broken_logger by (simp add: next_rowid_def broken_db_def)
  have t: "tail_digest ?st = ''cc''"
    by (simp add: broken_logger tail_digest_def)
  have h: "block_hash ''cc'' water_call \<notin> current_hash ` set (rows (db ?st))"
    using block_hash_neq_short [of "''aa''" "''cc''" water_call]
      block_hash_neq_short [of "''cc''" "''cc''" water_call]
    unfolding broken_logger by (simp add: broken_db_def)
  have c: "create_block water_call ?st =
     (Inr \<lparr>block_id = 3, res_previous_hash = ''cc'',
           res_current_hash = block_hash ''cc'' water_call, res_timestamp = now water_call,
           integrity = ''VERIFIED''\<rparr>,
      \<lparr>db = \<lparr>rows = rows broken_db @ [stored_row 3 ''cc'' (block_hash ''cc'' water_call)],
              seq = 3\<rparr>,
       chain = Some (3, ''cc'', block_hash ''cc'' water_call)\<rparr>)"
    using create_block_ok [of water_call ?st] h
    by (simp add: n t max_rowid_def stored_row_def) (simp add: broken_logger)
  have v: "verify_chain (db (snd (create_block water_call ?st))) = INVALID_CHAIN 2 ''aa'' ''bb''"
    unfolding c by (simp add: verify_chain_scan select_all_def broken_db_def)
  have v0: "verify_chain (db ?st) = INVALID_CHAIN 2 ''aa'' ''bb''"
    by (simp add: broken_logger verify_chain_scan select_all_broken)
  from integrity_field_is_constant [OF c] v v0 show ?thesis
    by (simp add: c)
qed

text \<open>
  Claim C1. One writer (a logger object, restarted or not, with calls that fail or not)
  works on a ledger in any state. The blocks that its successful appends add to the table
  are exactly as many as the calls that returned a result, and each of them after the
  first carries as \<^verbatim>\<open>previous_hash\<close> the \<^verbatim>\<open>current_hash\<close> of the block appended
  immediately before it.
\<close>

theorem appended_blocks_are_linked:
  "length (new_blocks xs st) = appended xs st \<and>
   (\<forall>i. 0 < i \<and> i < length (new_blocks xs st) \<longrightarrow>
      previous_hash (new_blocks xs st ! i) = current_hash (new_blocks xs st ! (i - 1)))"
proof -
  from run_new_blocks_linked [of xs st] obtain new where
    n: "rows (db (run xs st)) = rows (db st) @ new" and
    l: "new = [] \<or> linked (previous_hash (hd new)) new"
    by blast
  from n have nb: "new_blocks xs st = new"
    by (simp add: new_blocks_def)
  have "length (new_blocks xs st) = appended xs st"
    using length_rows_run [of xs st] by (simp add: new_blocks_def)
  moreover have "previous_hash (new ! i) = current_hash (new ! (i - 1))"
    if "0 < i" "i < length new" for i
  proof -
    from that l have "linked (previous_hash (hd new)) new" by auto
    from linked_nth [OF this that] show ?thesis .
  qed
  ultimately show ?thesis by (simp add: nb)
qed

text \<open>
  Claim C6. The digest of a block is a function of the content of its record: whatever
  the order in which the eight fields were put into the dict, \<^verbatim>\<open>json.dumps\<close> with
  \<^verbatim>\<open>sort_keys=True\<close> writes them in the order of their names, so the string that is
  hashed, and with it the digest, is the same. The digest is 64 lower-case hexadecimal
  digits, that is 32 bytes.
\<close>

theorem digest_independent_of_field_order:
  "mset kvs = mset (block_data prev a) \<Longrightarrow>
     sha256_hexdigest (dumps True (JObj kvs)) = block_hash prev a \<and>
     length (block_hash prev a) = 64 \<and>
     set (block_hash prev a) \<subseteq> set ''0123456789abcdef''"
proof -
  assume m: "mset kvs = mset (block_data prev a)"
  have "sort_key fst (block_data prev a) = sort_key fst kvs"
    by (rule sort_key_perm [OF m [symmetric] distinct_block_keys])
  then have "dumps True (JObj kvs) = dumps True (JObj (block_data prev a))"
    by simp
  then have "sha256_hexdigest (dumps True (JObj kvs)) = block_hash prev a"
    by (simp only: block_hash_def)
  moreover have "set (block_hash prev a) \<subseteq> set ''0123456789abcdef''"
    unfolding block_hash_def sha256_hexdigest_def by (rule set_hexdigest)
  ultimately show ?thesis
    using length_block_hash [of prev a] by blast
qed

text \<open>
  The fields of the first water block in reverse order of construction.
\<close>

theorem digest_independent_of_field_order_witness:
  "rev (block_data genesis water_call) \<noteq> block_data genesis water_call \<and>
   sha256_hexdigest (dumps True (JObj (rev (block_data genesis water_call))))
     = block_hash genesis water_call \<and>
   length (block_hash genesis water_call) = 64"
proof -
  have "mset (rev (block_data genesis water_call)) = mset (block_data genesis water_call)"
    by simp
  moreover have "rev (block_data genesis water_call) \<noteq> block_data genesis water_call"
    by (simp add: block_data_def)
  ultimately show ?thesis
    using digest_independent_of_field_order [of "rev (block_data genesis water_call)" genesis water_call]
    by blast
qed

text \<open>
  Claim C9. A ledger starts as an empty file and is written by calls of
  \<^verbatim>\<open>create_block\<close>, one after the other (some may raise, and the logger may be
  restarted in between). If N of the calls returned a result, the full scan in ascending
  id order yields exactly N blocks and their ids are 1, 2, ..., N.
\<close>

theorem sequence_ids_are_gap_free:
  "map row_id (select_all (db (run xs (BlockchainLogger None))))
     = [1..int (appended xs (BlockchainLogger None))] \<and>
   length (select_all (db (run xs (BlockchainLogger None)))) = appended xs (BlockchainLogger None)"
proof -
  let ?st = "run xs (BlockchainLogger None)"
  have c: "consistent ?st"
    by (rule consistent_run [OF consistent_fresh])
  have n: "length (rows (db ?st)) = appended xs (BlockchainLogger None)"
    using length_rows_run [of xs "BlockchainLogger None"] by simp
  from c have "map row_id (rows (db ?st)) = [1..int (length (rows (db ?st)))]"
    by (simp add: consistent_def)
  with n show ?thesis
    by (simp add: consistent_select [OF c])
qed

text \<open>
  Claim C3. In a ledger that started as an empty file and had one writer at a time, a
  successful call of \<^verbatim>\<open>create_block\<close> stores a block whose \<^verbatim>\<open>previous_hash\<close> is the one
  it returns. If the new id is 1, the ledger was empty and the value is the genesis
  sentinel, 64 characters \<^verbatim>\<open>0\<close>; otherwise it is the \<^verbatim>\<open>current_hash\<close> of the stored
  block whose id is one less.
\<close>

theorem previous_hash_of_new_block:
  "create_block a (run xs (BlockchainLogger None)) = (Inr res, st') \<Longrightarrow>
     previous_hash (last (rows (db st'))) = res_previous_hash res \<and>
     row_id (last (rows (db st'))) = block_id res \<and>
     (if block_id res = 1
      then rows (db (run xs (BlockchainLogger None))) = [] \<and>
           res_previous_hash res = replicate 64 CHR ''0''
      else map_option current_hash (block_at (db (run xs (BlockchainLogger None))) (block_id res - 1))
             = Some (res_previous_hash res))"
proof -
  let ?st = "run xs (BlockchainLogger None)"
  assume cb: "create_block a ?st = (Inr res, st')"
  have c: "consistent ?st"
    by (rule consistent_run [OF consistent_fresh])
  from cb have res: "res = \<lparr>block_id = next_rowid (db ?st), res_previous_hash = tail_digest ?st,
                 res_current_hash = block_hash (tail_digest ?st) a, res_timestamp = now a,
                 integrity = ''VERIFIED''\<rparr>"
    and l: "previous_hash (last (rows (db st'))) = tail_digest ?st"
           "row_id (last (rows (db st'))) = next_rowid (db ?st)"
    unfolding create_block_def by (auto dest!: write_block_cases)
  show ?thesis
  proof (cases "rows (db ?st) = []")
    case True
    with c show ?thesis
      by (simp add: res l consistent_next consistent_tail genesis_def)
  next
    case False
    from c have "map row_id (rows (db ?st)) = [1..int (length (rows (db ?st)))]"
      by (simp add: consistent_def)
    from find_last_id [OF this False] False c show ?thesis
      by (simp add: res l consistent_next consistent_tail block_at_def)
  qed
qed

text \<open>
  Claim C8, amended. When the calls of \<^verbatim>\<open>create_block\<close> on an initially empty ledger
  run one after the other, each from its read of \<^verbatim>\<open>self.chain\<close> to its return or
  exception, and N of them return a result, then the ledger holds exactly N blocks with
  the ids 1 to N, \<^verbatim>\<open>verify_chain\<close> accepts it (\<^verbatim>\<open>EMPTY_CHAIN\<close> for N = 0), and no two
  blocks after the first have the same \<^verbatim>\<open>previous_hash\<close>.
\<close>

theorem serial_appends_keep_chain_valid:
  "length (select_all (db (run xs (BlockchainLogger None)))) = appended xs (BlockchainLogger None) \<and>
   map row_id (select_all (db (run xs (BlockchainLogger None))))
     = [1..int (appended xs (BlockchainLogger None))] \<and>
   verify_chain (db (run xs (BlockchainLogger None)))
     = (if appended xs (BlockchainLogger None) = 0 then EMPTY_CHAIN
        else VALID_CHAIN (appended xs (BlockchainLogger None))) \<and>
   distinct (map previous_hash (tl (select_all (db (run xs (BlockchainLogger None))))))"
proof -
  let ?st = "run xs (BlockchainLogger None)"
  have c: "consistent ?st"
    by (rule consistent_run [OF consistent_fresh])
  have n: "length (rows (db ?st)) = appended xs (BlockchainLogger None)"
    using length_rows_run [of xs "BlockchainLogger None"] by simp
  from c have ids: "map row_id (rows (db ?st)) = [1..int (length (rows (db ?st)))]"
    and l: "linked genesis (rows (db ?st))"
    and d: "distinct (map current_hash (rows (db ?st)))"
    by (simp_all add: consistent_def)
  have v: "verify_chain (db ?st) =
      (if rows (db ?st) = [] then EMPTY_CHAIN else VALID_CHAIN (length (rows (db ?st))))"
  proof (cases "rows (db ?st)")
    case Nil
    then show ?thesis by (simp add: verify_chain_scan consistent_select [OF c])
  next
    case (Cons b bs)
    with l have "linked (current_hash b) bs" by simp
    from scan_from_linked [OF this, of 1] Cons show ?thesis
      by (simp add: verify_chain_scan consistent_select [OF c])
  qed
  from n have e: "(rows (db ?st) = []) = (appended xs (BlockchainLogger None) = 0)"
    by auto
  from linked_distinct_previous [OF l d] ids n v show ?thesis
    by (simp add: consistent_select [OF c] e)
qed

text \<open>
  Claim C8, as stated, fails: \<^verbatim>\<open>create_block\<close> holds no lock. Two threads call it on a
  fresh logger; both read \<^verbatim>\<open>self.chain\<close> (line 45) before either inserts. Both blocks
  then carry the genesis value as \<^verbatim>\<open>previous_hash\<close>: either the two digests differ and
  the ledger holds two blocks with the same \<^verbatim>\<open>previous_hash\<close>, or they are equal and
  the second insert raises, so that one block is stored for two calls.
\<close>

theorem unserialised_appends_counterexample:
  "\<not> (length (rows (db (both_read_then_write water_call fund_call (BlockchainLogger None)))) = 2 \<and>
      distinct (map previous_hash
        (rows (db (both_read_then_write water_call fund_call (BlockchainLogger None))))))"
  by (simp add: race_rows)

end
